theory Spec2Isabelle
  imports Main
begin

section \<open>DNSChat: response chunker, TTL cache and in-flight request tracking\<close>

text \<open>
  The development follows \<^verbatim>\<open>main.go\<close>. A Go \<^verbatim>\<open>string\<close> is a sequence of bytes;
  it is modelled by \<^typ>\<open>string\<close>, a list of 8-bit characters, so \<^const>\<open>length\<close> counts
  bytes exactly as Go's \<^verbatim>\<open>len\<close> does.
\<close>

subsection \<open>Response chunker\<close>

text \<open>
  \<^verbatim>\<open>chunkString\<close> calls \<^verbatim>\<open>utf8.DecodeRuneInString\<close> of the Go standard library and keeps
  only the size it returns. The function below computes that size: 0 for the empty string,
  1 for an ASCII byte and for every invalid or truncated encoding (the decoder then yields
  \<^verbatim>\<open>RuneError\<close> of width 1), otherwise the length 2, 3 or 4 announced by the lead byte,
  after the second byte has been checked against the lead byte's accept range and the
  remaining bytes against the continuation range \<^verbatim>\<open>0x80..0xBF\<close>.
\<close>

fun DecodeRuneInString_size :: "string \<Rightarrow> nat" where
  "DecodeRuneInString_size [] = 0"
| "DecodeRuneInString_size (c0 # rest) =
     (let s0 = (of_char c0 :: nat) in
      if s0 < 0xC2 \<or> 0xF4 < s0 then 1
      else
        let sz = (if s0 < 0xE0 then 2 else if s0 < 0xF0 then 3 else 4 :: nat);
            lo = (if s0 = 0xE0 then 0xA0 else if s0 = 0xF0 then 0x90 else 0x80 :: nat);
            hi = (if s0 = 0xED then 0x9F else if s0 = 0xF4 then 0x8F else 0xBF :: nat)
        in if length (c0 # rest) < sz then 1
           else if (of_char (rest ! 0) :: nat) < lo \<or> hi < (of_char (rest ! 0) :: nat) then 1
           else if sz \<le> 2 then 2
           else if (of_char (rest ! 1) :: nat) < 0x80 \<or> 0xBF < (of_char (rest ! 1) :: nat) then 1
           else if sz \<le> 3 then 3
           else if (of_char (rest ! 2) :: nat) < 0x80 \<or> 0xBF < (of_char (rest ! 2) :: nat) then 1
           else 4)"

lemma DecodeRuneInString_size_examples:
  "DecodeRuneInString_size ''a'' = 1"
  "DecodeRuneInString_size [char_of (0xC3::nat), char_of (0xA9::nat)] = 2"
  "DecodeRuneInString_size [char_of (0xE2::nat), char_of (0x82::nat), char_of (0xAC::nat)] = 3"
  "DecodeRuneInString_size
     [char_of (0xF0::nat), char_of (0x9F::nat), char_of (0x98::nat), char_of (0x80::nat)] = 4"
  "DecodeRuneInString_size [char_of (0xE2::nat), char_of (0x82::nat)] = 1"
  "DecodeRuneInString_size [char_of (0x80::nat), CHR ''a''] = 1"
  by (simp_all add: Let_def)

lemma DecodeRuneInString_size_pos: "s \<noteq> [] \<Longrightarrow> 1 \<le> DecodeRuneInString_size s"
  by (cases s) (simp_all add: Let_def)

lemma decode_tail_le:
  fixes n sz :: nat
  assumes "1 \<le> n" and "2 \<le> sz"
  shows "(if n < sz then 1
          else if b1 then 1
          else if sz \<le> 2 then 2
          else if b2 then 1
          else if sz \<le> 3 then 3
          else if b3 then 1 else 4) \<le> n"
  using assms by auto

lemma DecodeRuneInString_size_le: "DecodeRuneInString_size s \<le> length s"
proof (cases s)
  case Nil
  then show ?thesis by simp
next
  case (Cons c0 rest)
  have n: "1 \<le> length (c0 # rest)" by simp
  show ?thesis
    unfolding Cons DecodeRuneInString_size.simps Let_def
    apply (rule if_split [THEN iffD2])
    apply (intro conjI impI)
     apply simp
    apply (rule decode_tail_le [OF n])
    apply simp
    done
qed

text \<open>
  The loop of \<^verbatim>\<open>chunkString\<close>,
  \<^verbatim>\<open>for i := 0; i < len(s); { _, sz := utf8.DecodeRuneInString(s[i:]); if len(buf)+sz > chunkSize { chunks = append(chunks, string(buf)); buf = buf[:0] }; buf = append(buf, s[i:i+sz]...); i += sz }\<close>,
  as a recursion on its variables \<open>chunks\<close>, \<open>buf\<close> and \<open>i\<close>. \<^verbatim>\<open>chunkSize\<close> is a Go
  \<^verbatim>\<open>int\<close>; the sum \<^verbatim>\<open>len(buf)+sz\<close> is far from its bounds, so integers model it. The
  slice \<^verbatim>\<open>s[i:i+sz]\<close> is in range because the decoder never returns more than the bytes
  it was given. The loop ends because the decoder returns at least 1 on a non-empty string.
\<close>

function chunk_loop :: "string \<Rightarrow> int \<Rightarrow> string list \<Rightarrow> string \<Rightarrow> nat \<Rightarrow> string list \<times> string" where
  "chunk_loop s chunkSize chunks buf i =
     (if i < length s then
        let sz = DecodeRuneInString_size (drop i s);
            flush = (int (length buf) + int sz > chunkSize);
            chunks' = (if flush then chunks @ [buf] else chunks);
            buf' = (if flush then [] else buf)
        in chunk_loop s chunkSize chunks' (buf' @ take sz (drop i s)) (i + sz)
      else (chunks, buf))"
  by pat_completeness auto
termination
proof (relation "measure (\<lambda>(s, chunkSize, chunks, buf, i). length s - i)")
  show "wf (measure (\<lambda>(s, chunkSize, chunks, buf, i). length s - i))" by simp
next
  fix s :: string and chunkSize :: int and chunks :: "string list" and buf :: string and i sz :: nat
    and flush :: bool and chunks' :: "string list" and buf' :: string
  assume "i < length s" and sz: "sz = DecodeRuneInString_size (drop i s)"
  then have "1 \<le> sz" using DecodeRuneInString_size_pos [of "drop i s"] by simp
  with \<open>i < length s\<close>
  show "((s, chunkSize, chunks', buf' @ take sz (drop i s), i + sz), (s, chunkSize, chunks, buf, i))
        \<in> measure (\<lambda>(s, chunkSize, chunks, buf, i). length s - i)"
    by simp
qed

definition chunkString :: "string \<Rightarrow> int \<Rightarrow> string list" where
  "chunkString s chunkSize =
     (let (chunks, buf) = chunk_loop s chunkSize [] [] 0
      in if length buf > 0 then chunks @ [buf] else chunks)"

text \<open>
  The characters of a string: the byte sequences the decoder reads one after the other
  from the start. On valid UTF-8 these are the encoded code points; an invalid byte is a
  character of its own, as it is for \<^verbatim>\<open>chunkString\<close>.
\<close>

function runes :: "string \<Rightarrow> string list" where
  "runes s =
     (if s = [] then []
      else take (DecodeRuneInString_size s) s # runes (drop (DecodeRuneInString_size s) s))"
  by pat_completeness auto
termination
proof (relation "measure length")
  show "wf (measure (length :: string \<Rightarrow> nat))" by simp
next
  fix s :: string
  assume "s \<noteq> []"
  then show "(drop (DecodeRuneInString_size s) s, s) \<in> measure length"
    using DecodeRuneInString_size_pos [of s] by simp
qed

text \<open>
  The same loop on a list of characters instead of bytes: \<open>G\<close> collects the closed
  groups, \<open>g\<close> is the group being filled. It serves the proofs only; lemma
  \<open>chunk_loop_pack\<close> below shows that the loop of the code computes it.
\<close>

fun pack :: "int \<Rightarrow> string list \<Rightarrow> string list list \<Rightarrow> string list \<Rightarrow> string list list \<times> string list" where
  "pack m [] G g = (G, g)"
| "pack m (r # rs) G g =
     (if int (length (concat g)) + int (length r) > m
      then pack m rs (G @ [g]) [r]
      else pack m rs G (g @ [r]))"

definition pack_all :: "int \<Rightarrow> string list \<Rightarrow> string list list" where
  "pack_all m rs = (case pack m rs [] [] of (G, g) \<Rightarrow> if g = [] then G else G @ [g])"

text \<open>
  A group of characters is within the limit when its bytes fit, or when it is one
  character that is too long on its own.
\<close>

definition within :: "int \<Rightarrow> string list \<Rightarrow> bool" where
  "within m g \<longleftrightarrow> int (length (concat g)) \<le> m \<or> (\<exists>r. g = [r] \<and> m < int (length r))"

declare runes.simps [simp del]
declare chunk_loop.simps [simp del]

lemma runes_Nil [simp]: "runes [] = []"
  by (simp add: runes.simps)

lemma concat_runes: "concat (runes s) = s"
proof (induction s rule: runes.induct)
  case (1 s)
  show ?case
  proof (cases "s = []")
    case True
    then show ?thesis by simp
  next
    case False
    with 1 show ?thesis by (subst runes.simps) simp
  qed
qed

lemma runes_nonempty: "r \<in> set (runes s) \<Longrightarrow> r \<noteq> []"
proof (induction s rule: runes.induct)
  case (1 s)
  show ?case
  proof (cases "s = []")
    case True
    with 1 show ?thesis by simp
  next
    case False
    from 1(2) have "r \<in> set (take (DecodeRuneInString_size s) s # runes (drop (DecodeRuneInString_size s) s))"
      using False by (subst (asm) runes.simps) simp
    then consider "r = take (DecodeRuneInString_size s) s" | "r \<in> set (runes (drop (DecodeRuneInString_size s) s))"
      by auto
    then show ?thesis
    proof cases
      case 1
      then show ?thesis using False DecodeRuneInString_size_pos [of s] by auto
    next
      case 2
      with "1.IH" False show ?thesis by simp
    qed
  qed
qed

lemma chunk_loop_pack:
  "i \<le> length s \<Longrightarrow>
   chunk_loop s m (map concat G) (concat g) i =
     (case pack m (runes (drop i s)) G g of (G', g') \<Rightarrow> (map concat G', concat g'))"
proof (induction s m "map concat G" "concat g" i arbitrary: G g rule: chunk_loop.induct)
  case (1 s chunkSize i)
  show ?case
  proof (cases "i < length s")
    case False
    with 1(2) have "drop i s = []" by simp
    with False show ?thesis by (simp add: chunk_loop.simps)
  next
    case True
    define sz where "sz = DecodeRuneInString_size (drop i s)"
    define r where "r = take sz (drop i s)"
    have nonempty: "drop i s \<noteq> []" using True by simp
    have szle: "sz \<le> length (drop i s)" unfolding sz_def by (rule DecodeRuneInString_size_le)
    then have lenr: "length r = sz" unfolding r_def by simp
    have le: "i + sz \<le> length s" using szle True by simp
    have rs: "runes (drop i s) = r # runes (drop (i + sz) s)"
      using nonempty by (subst runes.simps) (simp add: sz_def r_def add.commute)
    show ?thesis
    proof (cases "int (length (concat g)) + int sz > chunkSize")
      case flush: True
      have "chunk_loop s chunkSize (map concat G) (concat g) i =
            chunk_loop s chunkSize (map concat (G @ [g])) (concat [r]) (i + sz)"
        using True flush by (subst chunk_loop.simps) (simp add: sz_def r_def Let_def)
      also have "\<dots> = (case pack chunkSize (runes (drop (i + sz) s)) (G @ [g]) [r] of
                          (G', g') \<Rightarrow> (map concat G', concat g'))"
        using 1(1) [of sz True "G @ [g]" "[]" "[r]"] True flush le
        by (simp add: r_def sz_def)
      finally show ?thesis using flush by (simp add: rs lenr)
    next
      case keep: False
      have "chunk_loop s chunkSize (map concat G) (concat g) i =
            chunk_loop s chunkSize (map concat G) (concat (g @ [r])) (i + sz)"
        using True keep by (subst chunk_loop.simps) (simp add: sz_def r_def Let_def)
      also have "\<dots> = (case pack chunkSize (runes (drop (i + sz) s)) G (g @ [r]) of
                          (G', g') \<Rightarrow> (map concat G', concat g'))"
        using 1(1) [of sz False G "concat g" "g @ [r]"] True keep le
        by (simp add: r_def sz_def)
      finally show ?thesis using keep by (simp add: rs lenr)
    qed
  qed
qed


subsection \<open>Properties of the chunker\<close>

lemma pack_append:
  "pack m rs G g = (G @ fst (pack m rs [] g), snd (pack m rs [] g))"
proof (induction rs arbitrary: G g)
  case Nil
  show ?case by simp
next
  case (Cons r rs)
  show ?case
    using Cons [of "G @ [g]" "[r]"] Cons [of "[g]" "[r]"] Cons [of G "g @ [r]"] Cons [of "[]" "g @ [r]"]
    by simp
qed

lemma pack_content:
  "pack m rs G g = (G', g') \<Longrightarrow> concat (G' @ [g']) = concat (G @ [g]) @ rs"
  by (induction rs arbitrary: G g) (auto split: if_splits)

lemma pack_within:
  "pack m rs G g = (G', g') \<Longrightarrow> \<forall>x\<in>set G. within m x \<Longrightarrow> within m g \<Longrightarrow>
   (\<forall>x\<in>set G'. within m x) \<and> within m g'"
proof (induction rs arbitrary: G g)
  case Nil
  then show ?case by simp
next
  case (Cons r rs)
  show ?case
  proof (cases "int (length (concat g)) + int (length r) > m")
    case True
    have "within m [r]" by (auto simp: within_def)
    with Cons.IH [of "G @ [g]" "[r]"] Cons.prems True show ?thesis by simp
  next
    case False
    then have "within m (g @ [r])" by (simp add: within_def)
    with Cons.IH [of G "g @ [r]"] Cons.prems False show ?thesis by simp
  qed
qed

lemma pack_nonempty:
  "pack m rs G g = (G', g') \<Longrightarrow> [] \<notin> set G \<Longrightarrow>
   g \<noteq> [] \<or> rs = [] \<or> int (length (hd rs)) \<le> m \<Longrightarrow>
   [] \<notin> set G' \<and> (g \<noteq> [] \<or> rs \<noteq> [] \<longrightarrow> g' \<noteq> [])"
proof (induction rs arbitrary: G g)
  case Nil
  then show ?case by simp
next
  case (Cons r rs)
  show ?case
  proof (cases "int (length (concat g)) + int (length r) > m")
    case True
    with Cons.prems(3) have "g \<noteq> []" by auto
    with Cons.IH [of "G @ [g]" "[r]"] Cons.prems True show ?thesis by simp
  next
    case False
    with Cons.IH [of G "g @ [r]"] Cons.prems show ?thesis by simp
  qed
qed

lemma concat_pack_all: "concat (pack_all m rs) = rs"
proof -
  obtain G g where p: "pack m rs [] [] = (G, g)" by (cases "pack m rs [] []")
  from pack_content [OF p] show ?thesis by (auto simp: pack_all_def p)
qed

lemma pack_all_within:
  assumes "0 \<le> m"
  shows "\<forall>x\<in>set (pack_all m rs). within m x"
proof -
  obtain G g where p: "pack m rs [] [] = (G, g)" by (cases "pack m rs [] []")
  have "within m []" using assms by (simp add: within_def)
  with pack_within [OF p] show ?thesis by (simp add: pack_all_def p)
qed

lemma pack_all_nonempty:
  assumes "rs = [] \<or> int (length (hd rs)) \<le> m"
  shows "[] \<notin> set (pack_all m rs)"
proof -
  obtain G g where p: "pack m rs [] [] = (G, g)" by (cases "pack m rs [] []")
  from pack_nonempty [OF p] assms show ?thesis by (auto simp: pack_all_def p)
qed

lemma pack_all_oversized_first:
  assumes "m < int (length r)"
  shows "\<exists>rest. pack_all m (r # rs) = [] # [r] # rest \<and> [] \<notin> set rest"
proof (cases rs)
  case Nil
  with assms show ?thesis by (simp add: pack_all_def)
next
  case (Cons r2 rs2)
  obtain G g where p: "pack m rs2 [] [r2] = (G, g)" by (cases "pack m rs2 [] [r2]")
  from pack_nonempty [OF p] have ne: "[] \<notin> set G" "g \<noteq> []" by simp_all
  have "pack m (r # rs) [] [] = ([[], [r]] @ G, g)"
    using assms Cons p pack_append [of m rs2 "[[], [r]]" "[r2]"] by simp
  with ne show ?thesis by (simp add: pack_all_def)
qed

lemma chunkString_pack_all: "chunkString s m = map concat (pack_all m (runes s))"
proof -
  obtain G g where p: "pack m (runes s) [] [] = (G, g)" by (cases "pack m (runes s) [] []")
  from pack_content [OF p] have "concat G @ g = runes s" by simp
  then have "set (concat G) \<union> set g = set (runes s)" by (metis set_append)
  then have "set g \<subseteq> set (runes s)" by blast
  then have ne: "\<forall>r\<in>set g. r \<noteq> []" using runes_nonempty by blast
  have "chunk_loop s m [] [] 0 = (map concat G, concat g)"
    using chunk_loop_pack [of 0 s m "[]" "[]"] p by simp
  moreover have "concat g = [] \<longleftrightarrow> g = []" using ne by (cases g) auto
  ultimately show ?thesis by (simp add: chunkString_def pack_all_def p)
qed


lemma pack_all_members: "g \<in> set (pack_all m rs) \<Longrightarrow> set g \<subseteq> set rs"
proof -
  assume "g \<in> set (pack_all m rs)"
  then have "set g \<subseteq> set (concat (pack_all m rs))" by auto
  then show ?thesis by (simp add: concat_pack_all)
qed

lemma concat_group_nonempty:
  assumes "g \<in> set (pack_all m (runes s))" and "g \<noteq> []"
  shows "concat g \<noteq> []"
proof -
  from assms(2) obtain r g' where g: "g = r # g'" by (cases g) auto
  with pack_all_members [OF assms(1)] have "r \<in> set (runes s)" by simp
  then have "r \<noteq> []" by (rule runes_nonempty)
  with g show ?thesis by simp
qed

lemma runes_Cons:
  "s \<noteq> [] \<Longrightarrow> runes s = take (DecodeRuneInString_size s) s # runes (drop (DecodeRuneInString_size s) s)"
  by (subst runes.simps) simp

lemma length_first_rune:
  "length (take (DecodeRuneInString_size s) s) = DecodeRuneInString_size s"
  using DecodeRuneInString_size_le [of s] by simp

lemma concat_map_concat: "concat (map concat xss) = concat (concat xss)"
  by (induction xss) simp_all

text \<open>
  Claim C4. For every input \<open>s\<close> and every \<open>maxBytes\<close> (in particular every positive
  one), the chunks of \<^verbatim>\<open>chunkString\<close> concatenated in order give back \<open>s\<close> byte for
  byte; the chunks are the concatenations of consecutive groups of the decoded characters
  of \<open>s\<close>, so no boundary between two chunks lies inside a character; and the empty
  input gives the empty list of chunks.
\<close>
theorem chunkString_roundtrip:
  "concat (chunkString s maxBytes) = s \<and>
   (\<exists>G. concat G = runes s \<and> chunkString s maxBytes = map concat G) \<and>
   chunkString [] maxBytes = []"
proof (intro conjI)
  have "concat (chunkString s maxBytes) = concat (concat (pack_all maxBytes (runes s)))"
    by (simp add: chunkString_pack_all concat_map_concat)
  then show "concat (chunkString s maxBytes) = s"
    by (simp add: concat_pack_all concat_runes)
  show "\<exists>G. concat G = runes s \<and> chunkString s maxBytes = map concat G"
    using concat_pack_all chunkString_pack_all by blast
  show "chunkString [] maxBytes = []"
    by (simp add: chunkString_pack_all pack_all_def)
qed

theorem chunkString_roundtrip_witness:
  "concat (chunkString [CHR ''a'', char_of (195::nat), char_of (169::nat), CHR ''b''] 2) =
     [CHR ''a'', char_of (195::nat), char_of (169::nat), CHR ''b''] \<and>
   (\<exists>G. concat G = runes [CHR ''a'', char_of (195::nat), char_of (169::nat), CHR ''b''] \<and>
        chunkString [CHR ''a'', char_of (195::nat), char_of (169::nat), CHR ''b''] 2 = map concat G) \<and>
   chunkString [] 2 = [] \<and>
   chunkString [CHR ''a'', char_of (195::nat), char_of (169::nat), CHR ''b''] 2 =
     [''a'', [char_of (195::nat), char_of (169::nat)], ''b'']"
proof -
  have "chunkString [CHR ''a'', char_of (195::nat), char_of (169::nat), CHR ''b''] 2 =
        [''a'', [char_of (195::nat), char_of (169::nat)], ''b'']"
    by code_simp
  with chunkString_roundtrip [of "[CHR ''a'', char_of (195::nat), char_of (169::nat), CHR ''b'']" 2]
  show ?thesis by simp
qed

text \<open>
  Claim C5. For \<open>maxBytes > 0\<close>, every chunk is built from whole characters (it is the
  concatenation of a group of consecutive decoded characters) and is at most
  \<open>maxBytes\<close> bytes long, unless its group is a single character whose encoding alone
  is longer than \<open>maxBytes\<close>.
\<close>
theorem chunkString_size_bound:
  assumes "0 < maxBytes"
  shows "\<exists>G. concat G = runes s \<and> chunkString s maxBytes = map concat G \<and>
           (\<forall>g\<in>set G. int (length (concat g)) \<le> maxBytes \<or>
                        (\<exists>r. g = [r] \<and> maxBytes < int (length r)))"
proof -
  from assms have "0 \<le> maxBytes" by simp
  then have "\<forall>g\<in>set (pack_all maxBytes (runes s)). within maxBytes g"
    by (rule pack_all_within)
  then show ?thesis
    unfolding within_def using concat_pack_all chunkString_pack_all by blast
qed

theorem chunkString_size_bound_witness:
  "(0::int) < 1 \<and>
   chunkString [CHR ''a'', char_of (195::nat), char_of (169::nat)] 1 =
     [''a'', [char_of (195::nat), char_of (169::nat)]] \<and>
   (\<exists>G. concat G = runes [CHR ''a'', char_of (195::nat), char_of (169::nat)] \<and>
        chunkString [CHR ''a'', char_of (195::nat), char_of (169::nat)] 1 = map concat G \<and>
        (\<forall>g\<in>set G. int (length (concat g)) \<le> 1 \<or> (\<exists>r. g = [r] \<and> 1 < int (length r))))"
proof -
  have h: "(0::int) < 1" by simp
  have "chunkString [CHR ''a'', char_of (195::nat), char_of (169::nat)] 1 =
        [''a'', [char_of (195::nat), char_of (169::nat)]]"
    by code_simp
  with h chunkString_size_bound [OF h, of "[CHR ''a'', char_of (195::nat), char_of (169::nat)]"]
  show ?thesis by simp
qed

text \<open>
  Claim C10. If the input is not empty and the encoding of its first character is longer
  than \<open>maxBytes\<close>, the first chunk is the empty string and the second chunk is that
  character alone; no later chunk is empty. If the input is empty or its first character
  fits within \<open>maxBytes\<close>, no chunk at all is empty. So an empty chunk can only be the
  first element of the result.
\<close>
theorem chunkString_empty_chunk:
  "(s \<noteq> [] \<and> maxBytes < int (DecodeRuneInString_size s) \<longrightarrow>
      (\<exists>rest. chunkString s maxBytes = [] # take (DecodeRuneInString_size s) s # rest \<and>
              [] \<notin> set rest)) \<and>
   (s = [] \<or> int (DecodeRuneInString_size s) \<le> maxBytes \<longrightarrow>
      [] \<notin> set (chunkString s maxBytes))"
proof (intro conjI impI)
  assume a: "s \<noteq> [] \<and> maxBytes < int (DecodeRuneInString_size s)"
  define r where "r = take (DecodeRuneInString_size s) s"
  define rs where "rs = runes (drop (DecodeRuneInString_size s) s)"
  have rn: "runes s = r # rs" using a by (simp add: runes_Cons r_def rs_def)
  have "maxBytes < int (length r)" using a unfolding r_def length_first_rune by simp
  from pack_all_oversized_first [OF this, of rs]
  obtain rest where rest: "pack_all maxBytes (runes s) = [] # [r] # rest" "[] \<notin> set rest"
    using rn by auto
  have "\<forall>g\<in>set rest. concat g \<noteq> []"
  proof
    fix g assume g: "g \<in> set rest"
    then have "g \<in> set (pack_all maxBytes (runes s))" using rest(1) by simp
    moreover have "g \<noteq> []" using g rest(2) by auto
    ultimately show "concat g \<noteq> []" by (rule concat_group_nonempty)
  qed
  then have "[] \<notin> set (map concat rest)" by auto
  then show "\<exists>rest. chunkString s maxBytes = [] # take (DecodeRuneInString_size s) s # rest \<and>
              [] \<notin> set rest"
    using rest(1) by (simp add: chunkString_pack_all r_def)
next
  assume a: "s = [] \<or> int (DecodeRuneInString_size s) \<le> maxBytes"
  have "runes s = [] \<or> int (length (hd (runes s))) \<le> maxBytes"
  proof (cases "s = []")
    case True
    then show ?thesis by simp
  next
    case False
    with a show ?thesis unfolding runes_Cons [OF False] list.sel length_first_rune by simp
  qed
  then have ne: "[] \<notin> set (pack_all maxBytes (runes s))" by (rule pack_all_nonempty)
  have "\<forall>g\<in>set (pack_all maxBytes (runes s)). concat g \<noteq> []"
  proof
    fix g assume g: "g \<in> set (pack_all maxBytes (runes s))"
    moreover have "g \<noteq> []" using g ne by auto
    ultimately show "concat g \<noteq> []" by (rule concat_group_nonempty)
  qed
  then show "[] \<notin> set (chunkString s maxBytes)"
    by (auto simp: chunkString_pack_all)
qed

theorem chunkString_empty_chunk_witness:
  "[char_of (195::nat), char_of (169::nat), CHR ''b''] \<noteq> [] \<and>
   1 < int (DecodeRuneInString_size [char_of (195::nat), char_of (169::nat), CHR ''b'']) \<and>
   (\<exists>rest. chunkString [char_of (195::nat), char_of (169::nat), CHR ''b''] 1 =
             [] # take (DecodeRuneInString_size [char_of (195::nat), char_of (169::nat), CHR ''b''])
                    [char_of (195::nat), char_of (169::nat), CHR ''b''] # rest \<and>
           [] \<notin> set rest) \<and>
   int (DecodeRuneInString_size ''abc'') \<le> 2 \<and>
   [] \<notin> set (chunkString ''abc'' 2)"
proof -
  have h1: "[char_of (195::nat), char_of (169::nat), CHR ''b''] \<noteq> [] \<and>
            1 < int (DecodeRuneInString_size [char_of (195::nat), char_of (169::nat), CHR ''b''])"
    by (simp add: Let_def)
  have h2: "''abc'' = [] \<or> int (DecodeRuneInString_size ''abc'') \<le> 2"
    by (simp add: Let_def)
  from h1 h2
    chunkString_empty_chunk [of "[char_of (195::nat), char_of (169::nat), CHR ''b'']" 1]
    chunkString_empty_chunk [of "''abc''" 2]
  show ?thesis by blast
qed


subsection \<open>TTL cache and in-flight request tracking\<close>

text \<open>
  Instants and durations are counted in nanoseconds, as Go's \<^verbatim>\<open>time\<close> package does;
  they are unbounded integers here. \<^verbatim>\<open>cacheDuration\<close> is \<^verbatim>\<open>1 * time.Hour\<close>.
\<close>

definition cacheDuration :: int where
  "cacheDuration = 3600000000000"

record cacheEntry =
  response :: string
  expiresAt :: int

text \<open>
  A Go \<^verbatim>\<open>error\<close> made by \<^verbatim>\<open>errors.New\<close> carries a message and nothing else. The
  pair \<^verbatim>\<open>(string, error)\<close> that \<^verbatim>\<open>getOrCreateLLMRequest\<close> returns is either
  \<^verbatim>\<open>("", err)\<close> or \<^verbatim>\<open>(response, nil)\<close>: a value of the sum type \<open>error + string\<close>.
\<close>

datatype error = Error string

text \<open>
  Goroutines that serve requests share the two maps and interleave. The shared maps are
  only touched inside critical sections of their mutexes, and channels synchronise, so an
  execution is a sequence of atomic actions. A call of \<^verbatim>\<open>getOrCreateLLMRequest\<close> stands
  at one of the following program points, each just before one atomic action; the local
  variables \<^verbatim>\<open>ch\<close>, \<^verbatim>\<open>err\<close> and \<^verbatim>\<open>response\<close> that are live there are carried along.

  \<^item> \<open>CheckCache\<close>: line 134, the first \<^verbatim>\<open>getCache(q)\<close>;
  \<^item> \<open>Acquire\<close>: lines 140 to 157, the critical section of \<^verbatim>\<open>inFlightMutex\<close> that looks
    the query up in \<^verbatim>\<open>inFlightRequests\<close> and, when it is absent, makes a channel and
    registers it;
  \<^item> \<open>Wait ch\<close>: line 146, the receive \<^verbatim>\<open><-ch\<close>, which blocks until \<^verbatim>\<open>ch\<close> is closed;
  \<^item> \<open>Recheck\<close>: line 147, the second \<^verbatim>\<open>getCache(q)\<close> and the return of lines 149 to 152;
  \<^item> \<open>Generate ch\<close>: line 159, the call \<^verbatim>\<open>getLLMResponse(q)\<close>;
  \<^item> \<open>CloseFailed ch err\<close>: lines 163 and 164, \<^verbatim>\<open>close(ch)\<close> and the return of the error;
  \<^item> \<open>Commit ch response\<close>: line 170, \<^verbatim>\<open>setCache(q, response)\<close>;
  \<^item> \<open>Release ch response\<close>: lines 171 to 173, \<^verbatim>\<open>delete(inFlightRequests, q)\<close> under the
    mutex;
  \<^item> \<open>CloseDone ch response\<close>: lines 176 and 178, \<^verbatim>\<open>close(ch)\<close> and the return of the
    response;
  \<^item> \<open>Returned r\<close>: the call has returned \<open>r\<close>.
\<close>

datatype label =
    CheckCache
  | Acquire
  | Wait nat
  | Recheck
  | Generate nat
  | CloseFailed nat error
  | Commit nat string
  | Release nat string
  | CloseDone nat string
  | Returned "error + string"

record call =
  qname :: string
  at :: label

text \<open>
  The state of the process: the two global maps; the channels made so far (a channel is
  identified by its number, \<open>nchan\<close> counts them) and the set of those that have been
  closed; the clock that \<^verbatim>\<open>time.Now()\<close> reads; the queries \<^verbatim>\<open>getLLMResponse\<close> has been
  called with, in order; the calls of \<^verbatim>\<open>getOrCreateLLMRequest\<close>, one per goroutine; and
  whether the process has panicked (closing a closed channel panics).
\<close>

record state =
  cache :: "string \<rightharpoonup> cacheEntry"
  inFlightRequests :: "string \<rightharpoonup> nat"
  closed :: "nat set"
  nchan :: nat
  now :: int
  llmCalls :: "string list"
  calls :: "nat \<rightharpoonup> call"
  panicked :: bool

definition init :: "int \<Rightarrow> state" where
  "init t0 = \<lparr>cache = Map.empty, inFlightRequests = Map.empty, closed = {}, nchan = 0,
              now = t0, llmCalls = [], calls = Map.empty, panicked = False\<rparr>"

definition getCache :: "string \<Rightarrow> state \<Rightarrow> string \<times> bool" where
  "getCache q s =
     (case cache s q of
        Some res \<Rightarrow> if now s < expiresAt res then (response res, True) else ([], False)
      | None \<Rightarrow> ([], False))"

definition setCache :: "string \<Rightarrow> string \<Rightarrow> state \<Rightarrow> state" where
  "setCache q res s =
     s\<lparr>cache := (cache s)(q \<mapsto> \<lparr>response = res, expiresAt = now s + cacheDuration\<rparr>)\<rparr>"

text \<open>\<open>goto t q l s\<close>: the call of goroutine \<open>t\<close>, for query \<open>q\<close>, now stands at \<open>l\<close>.\<close>

definition goto :: "nat \<Rightarrow> string \<Rightarrow> label \<Rightarrow> state \<Rightarrow> state" where
  "goto t q l s = s\<lparr>calls := (calls s)(t \<mapsto> \<lparr>qname = q, at = l\<rparr>)\<rparr>"

text \<open>
  One atomic action of the call of goroutine \<open>t\<close> for query \<open>q\<close> standing at a program
  point. \<open>None\<close> means that the call cannot move: it is blocked on an open channel, it is
  inside \<^verbatim>\<open>getLLMResponse\<close> (whose return is an event of its own, below), or it has
  returned.
\<close>

fun getOrCreateLLMRequest :: "nat \<Rightarrow> string \<Rightarrow> label \<Rightarrow> state \<Rightarrow> state option" where
  "getOrCreateLLMRequest t q CheckCache s =
     (case getCache q s of
        (resp, ok) \<Rightarrow>
          if ok then Some (goto t q (Returned (Inr resp)) s)
          else Some (goto t q Acquire s))"
| "getOrCreateLLMRequest t q Acquire s =
     (case inFlightRequests s q of
        Some ch \<Rightarrow> Some (goto t q (Wait ch) s)
      | None \<Rightarrow>
          let ch = nchan s
          in Some (goto t q (Generate ch)
                (s\<lparr>nchan := ch + 1, inFlightRequests := (inFlightRequests s)(q \<mapsto> ch)\<rparr>)))"
| "getOrCreateLLMRequest t q (Wait ch) s = (if ch \<in> closed s then Some (goto t q Recheck s) else None)"
| "getOrCreateLLMRequest t q Recheck s =
     (case getCache q s of
        (resp, ok) \<Rightarrow>
          if \<not> ok then Some (goto t q (Returned (Inl (Error ''upstream generation failed''))) s)
          else Some (goto t q (Returned (Inr resp)) s))"
| "getOrCreateLLMRequest t q (Generate ch) s = None"
| "getOrCreateLLMRequest t q (CloseFailed ch err) s =
     (if ch \<in> closed s then Some (s\<lparr>panicked := True\<rparr>)
      else Some (goto t q (Returned (Inl err)) (s\<lparr>closed := insert ch (closed s)\<rparr>)))"
| "getOrCreateLLMRequest t q (Commit ch resp) s = Some (goto t q (Release ch resp) (setCache q resp s))"
| "getOrCreateLLMRequest t q (Release ch resp) s =
     Some (goto t q (CloseDone ch resp) (s\<lparr>inFlightRequests := (inFlightRequests s)(q := None)\<rparr>))"
| "getOrCreateLLMRequest t q (CloseDone ch resp) s =
     (if ch \<in> closed s then Some (s\<lparr>panicked := True\<rparr>)
      else Some (goto t q (Returned (Inr resp)) (s\<lparr>closed := insert ch (closed s)\<rparr>)))"
| "getOrCreateLLMRequest t q (Returned r) s = None"

text \<open>
  The events of an execution: a new request for \<open>q\<close> is handed to a fresh goroutine \<open>t\<close>
  (the DNS server serves every request in its own goroutine); goroutine \<open>t\<close> performs its
  next atomic action; the call \<^verbatim>\<open>getLLMResponse(q)\<close> of goroutine \<open>t\<close> returns \<open>r\<close>
  (the external service decides \<open>r\<close>; the call is recorded in \<open>llmCalls\<close>); the clock
  advances by \<open>d\<close>. Nothing happens after a panic.
\<close>

datatype event =
    Request nat string
  | Step nat
  | Reply nat "error + string"
  | Tick int

fun step :: "event \<Rightarrow> state \<Rightarrow> state option" where
  "step (Request t q) s =
     (if panicked s then None
      else case calls s t of None \<Rightarrow> Some (goto t q CheckCache s) | Some c \<Rightarrow> None)"
| "step (Step t) s =
     (if panicked s then None
      else case calls s t of None \<Rightarrow> None | Some c \<Rightarrow> getOrCreateLLMRequest t (qname c) (at c) s)"
| "step (Reply t r) s =
     (if panicked s then None
      else case calls s t of
             None \<Rightarrow> None
           | Some c \<Rightarrow>
               (case at c of
                  Generate ch \<Rightarrow>
                    Some (goto t (qname c)
                            (case r of Inl err \<Rightarrow> CloseFailed ch err | Inr resp \<Rightarrow> Commit ch resp)
                            (s\<lparr>llmCalls := llmCalls s @ [qname c]\<rparr>))
                | _ \<Rightarrow> None))"
| "step (Tick d) s = (if panicked s \<or> d < 0 then None else Some (s\<lparr>now := now s + d\<rparr>))"

fun run :: "event list \<Rightarrow> state \<Rightarrow> state option" where
  "run [] s = Some s"
| "run (e # es) s = (case step e s of None \<Rightarrow> None | Some s' \<Rightarrow> run es s')"

text \<open>What the call of goroutine \<open>t\<close> has returned, if it has.\<close>

definition result :: "state \<Rightarrow> nat \<Rightarrow> (error + string) option" where
  "result s t = (case calls s t of
                   Some c \<Rightarrow> (case at c of Returned r \<Rightarrow> Some r | _ \<Rightarrow> None)
                 | None \<Rightarrow> None)"

subsection \<open>Invariants of the executions\<close>

text \<open>
  A call owns the channel it has made from the moment it registers it until it closes it.
\<close>

fun owns :: "label \<Rightarrow> nat option" where
  "owns (Generate ch) = Some ch"
| "owns (CloseFailed ch err) = Some ch"
| "owns (Commit ch resp) = Some ch"
| "owns (Release ch resp) = Some ch"
| "owns (CloseDone ch resp) = Some ch"
| "owns l = None"

fun registered :: "label \<Rightarrow> nat option" where
  "registered (Generate ch) = Some ch"
| "registered (CloseFailed ch err) = Some ch"
| "registered (Commit ch resp) = Some ch"
| "registered (Release ch resp) = Some ch"
| "registered l = None"

fun committed :: "label \<Rightarrow> bool" where
  "committed (Release ch resp) = True"
| "committed (CloseDone ch resp) = True"
| "committed l = False"

definition chan_inv :: "state \<Rightarrow> bool" where
  "chan_inv s \<longleftrightarrow>
     \<not> panicked s \<and>
     (\<forall>x\<in>closed s. x < nchan s) \<and>
     (\<forall>t c ch. calls s t = Some c \<longrightarrow> owns (at c) = Some ch \<longrightarrow> ch < nchan s \<and> ch \<notin> closed s) \<and>
     (\<forall>t t' c c' ch. calls s t = Some c \<longrightarrow> calls s t' = Some c' \<longrightarrow>
        owns (at c) = Some ch \<longrightarrow> owns (at c') = Some ch \<longrightarrow> t = t')"

definition slot_inv :: "state \<Rightarrow> bool" where
  "slot_inv s \<longleftrightarrow>
     (\<forall>t c ch. calls s t = Some c \<longrightarrow> registered (at c) = Some ch \<longrightarrow>
        inFlightRequests s (qname c) = Some ch)"

definition commit_inv :: "state \<Rightarrow> bool" where
  "commit_inv s \<longleftrightarrow>
     (\<forall>t c. calls s t = Some c \<longrightarrow> committed (at c) \<longrightarrow> cache s (qname c) \<noteq> None)"

text \<open>
  Between its \<^verbatim>\<open>setCache\<close> and the removal of its entry of \<^verbatim>\<open>inFlightRequests\<close>, the cache
  holds the response of the call itself.
\<close>

definition release_inv :: "state \<Rightarrow> bool" where
  "release_inv s \<longleftrightarrow>
     (\<forall>t c ch resp. calls s t = Some c \<longrightarrow> at c = Release ch resp \<longrightarrow>
        (\<exists>e. cache s (qname c) = Some e \<and> response e = resp))"

lemma commit_inv_step:
  assumes "commit_inv s" and "step e s = Some s'"
  shows "commit_inv s'"
proof (cases e)
  case (Request t q)
  with assms show ?thesis
    by (auto simp: commit_inv_def goto_def split: if_splits option.splits)
next
  case (Step t)
  with assms(2) obtain c where c: "calls s t = Some c" and adv: "getOrCreateLLMRequest t (qname c) (at c) s = Some s'"
    by (auto split: if_splits option.splits)
  show ?thesis
  proof (cases "at c")
    case CheckCache
    with assms(1) adv c show ?thesis
      by (auto simp: commit_inv_def goto_def split: if_splits option.splits prod.splits)
  next
    case Acquire
    with assms(1) adv c show ?thesis
      by (auto simp: commit_inv_def goto_def Let_def split: if_splits option.splits prod.splits)
  next
    case (Wait x3)
    with assms(1) adv c show ?thesis
      by (auto simp: commit_inv_def goto_def split: if_splits option.splits prod.splits)
  next
    case Recheck
    with assms(1) adv c show ?thesis
      by (auto simp: commit_inv_def goto_def split: if_splits option.splits prod.splits)
  next
    case (Generate x5)
    with assms(1) adv c show ?thesis by simp
  next
    case (CloseFailed x61 x62)
    with assms(1) adv c show ?thesis
      by (auto simp: commit_inv_def goto_def split: if_splits option.splits prod.splits)
  next
    case (Commit x71 x72)
    with assms(1) adv c show ?thesis
      by (auto simp: commit_inv_def goto_def setCache_def split: if_splits option.splits prod.splits)
  next
    case (Release x81 x82)
    with assms(1) adv c show ?thesis
      apply (auto simp: commit_inv_def goto_def split: if_splits option.splits prod.splits)
      done
  next
    case (CloseDone x91 x92)
    with assms(1) adv c show ?thesis
      by (auto simp: commit_inv_def goto_def split: if_splits option.splits prod.splits)
  next
    case (Returned x10)
    with assms(1) adv c show ?thesis by simp
  qed
next
  case (Reply t r)
  with assms show ?thesis
    by (auto simp: commit_inv_def goto_def split: if_splits option.splits label.splits sum.splits)
next
  case (Tick d)
  with assms show ?thesis
    by (auto simp: commit_inv_def split: if_splits)
qed


lemma owns_less:
  "chan_inv s \<Longrightarrow> calls s t = Some c \<Longrightarrow> owns (at c) = Some ch \<Longrightarrow> ch < nchan s"
  unfolding chan_inv_def by blast

lemma owns_open:
  "chan_inv s \<Longrightarrow> calls s t = Some c \<Longrightarrow> owns (at c) = Some ch \<Longrightarrow> ch \<notin> closed s"
  unfolding chan_inv_def by blast

lemma owns_unique:
  "chan_inv s \<Longrightarrow> calls s t = Some c \<Longrightarrow> calls s t' = Some c' \<Longrightarrow>
   owns (at c) = Some ch \<Longrightarrow> owns (at c') = Some ch \<Longrightarrow> t = t'"
  unfolding chan_inv_def by blast

lemma closed_less: "chan_inv s \<Longrightarrow> x \<in> closed s \<Longrightarrow> x < nchan s"
  unfolding chan_inv_def by blast

lemma chan_invI:
  assumes "\<not> panicked s"
    and "\<And>x. x \<in> closed s \<Longrightarrow> x < nchan s"
    and "\<And>t c ch. calls s t = Some c \<Longrightarrow> owns (at c) = Some ch \<Longrightarrow> ch < nchan s \<and> ch \<notin> closed s"
    and "\<And>t t' c c' ch. calls s t = Some c \<Longrightarrow> calls s t' = Some c' \<Longrightarrow>
           owns (at c) = Some ch \<Longrightarrow> owns (at c') = Some ch \<Longrightarrow> t = t'"
  shows "chan_inv s"
  unfolding chan_inv_def using assms by blast

lemma chan_inv_goto_none:
  assumes inv: "chan_inv s" and l: "owns l = None"
  shows "chan_inv (goto t q l s)"
proof (rule chan_invI)
  show "\<not> panicked (goto t q l s)" using inv by (simp add: goto_def chan_inv_def)
next
  fix x assume "x \<in> closed (goto t q l s)"
  then show "x < nchan (goto t q l s)" using closed_less [OF inv] by (simp add: goto_def)
next
  fix u c ch assume "calls (goto t q l s) u = Some c" and o: "owns (at c) = Some ch"
  then have "calls s u = Some c" using l by (auto simp: goto_def split: if_splits)
  then show "ch < nchan (goto t q l s) \<and> ch \<notin> closed (goto t q l s)"
    using owns_less [OF inv _ o] owns_open [OF inv _ o] by (simp add: goto_def)
next
  fix u u' c c' ch
  assume "calls (goto t q l s) u = Some c" and "calls (goto t q l s) u' = Some c'"
    and o: "owns (at c) = Some ch" and o': "owns (at c') = Some ch"
  then have "calls s u = Some c" and "calls s u' = Some c'"
    using l by (auto simp: goto_def split: if_splits)
  then show "u = u'" using owns_unique [OF inv _ _ o o'] by blast
qed


lemma chan_inv_update:
  assumes inv: "chan_inv s"
    and p: "\<not> panicked s'" and cl: "closed s' = closed s" and n: "nchan s' = nchan s"
    and cs: "calls s' = (calls s)(t \<mapsto> c')"
    and o: "owns (at c') = None \<or> (\<exists>c. calls s t = Some c \<and> owns (at c') = owns (at c))"
  shows "chan_inv s'"
proof (rule chan_invI)
  show "\<not> panicked s'" by (rule p)
next
  fix x assume "x \<in> closed s'"
  then show "x < nchan s'" using closed_less [OF inv] by (simp add: cl n)
next
  fix u c ch assume u: "calls s' u = Some c" and oc: "owns (at c) = Some ch"
  have "\<exists>c0. calls s u = Some c0 \<and> owns (at c0) = Some ch"
  proof (cases "u = t")
    case True
    with u cs have "c = c'" by simp
    with o oc True show ?thesis by auto
  next
    case False
    with u cs oc show ?thesis by simp
  qed
  then show "ch < nchan s' \<and> ch \<notin> closed s'"
    using owns_less [OF inv] owns_open [OF inv] by (auto simp: cl n)
next
  fix u u' c d ch
  assume u: "calls s' u = Some c" and u': "calls s' u' = Some d"
    and oc: "owns (at c) = Some ch" and od: "owns (at d) = Some ch"
  have a: "\<exists>c0. calls s u = Some c0 \<and> owns (at c0) = Some ch"
  proof (cases "u = t")
    case True
    with u cs have "c = c'" by simp
    with o oc True show ?thesis by auto
  next
    case False
    with u cs oc show ?thesis by simp
  qed
  have b: "\<exists>c0. calls s u' = Some c0 \<and> owns (at c0) = Some ch"
  proof (cases "u' = t")
    case True
    with u' cs have "d = c'" by simp
    with o od True show ?thesis by auto
  next
    case False
    with u' cs od show ?thesis by simp
  qed
  from a b show "u = u'" using owns_unique [OF inv] by blast
qed

lemma chan_inv_acquire:
  assumes inv: "chan_inv s"
    and p: "\<not> panicked s'" and cl: "closed s' = closed s" and n: "nchan s' = Suc (nchan s)"
    and cs: "calls s' = (calls s)(t \<mapsto> c')"
    and o: "owns (at c') = Some (nchan s)"
    and old: "calls s t = Some c" "owns (at c) = None"
  shows "chan_inv s'"
proof (rule chan_invI)
  show "\<not> panicked s'" by (rule p)
next
  fix x assume "x \<in> closed s'"
  then show "x < nchan s'" using closed_less [OF inv, of x] by (simp add: cl n)
next
  fix u c0 ch assume u: "calls s' u = Some c0" and oc: "owns (at c0) = Some ch"
  show "ch < nchan s' \<and> ch \<notin> closed s'"
  proof (cases "u = t")
    case True
    with u cs have "c0 = c'" by simp
    with o oc have "ch = nchan s" by simp
    then show ?thesis using closed_less [OF inv, of ch] by (auto simp: cl n)
  next
    case False
    with u cs have su: "calls s u = Some c0" by simp
    show ?thesis using owns_less [OF inv su oc] owns_open [OF inv su oc] by (simp add: cl n)
  qed
next
  fix u u' c0 d ch
  assume u: "calls s' u = Some c0" and u': "calls s' u' = Some d"
    and oc: "owns (at c0) = Some ch" and od: "owns (at d) = Some ch"
  have other: "calls s v = Some e \<Longrightarrow> owns (at e) = Some k \<Longrightarrow> k \<noteq> nchan s" for v e k
    using owns_less [OF inv, of v e k] by auto
  show "u = u'"
  proof (cases "u = t")
    case True
    with u cs o oc have ch: "ch = nchan s" by simp
    show ?thesis
    proof (cases "u' = t")
      case True
      with \<open>u = t\<close> show ?thesis by simp
    next
      case False
      with u' cs have "calls s u' = Some d" by simp
      from other [OF this od] ch show ?thesis by simp
    qed
  next
    case False
    with u cs have su: "calls s u = Some c0" by simp
    show ?thesis
    proof (cases "u' = t")
      case True
      with u' cs o od have "ch = nchan s" by simp
      with other [OF su oc] show ?thesis by simp
    next
      case False
      with u' cs have "calls s u' = Some d" by simp
      with su show ?thesis using owns_unique [OF inv _ _ oc od] by blast
    qed
  qed
qed

lemma chan_inv_close:
  assumes inv: "chan_inv s"
    and p: "\<not> panicked s'" and cl: "closed s' = insert ch (closed s)" and n: "nchan s' = nchan s"
    and cs: "calls s' = (calls s)(t \<mapsto> c')"
    and o: "owns (at c') = None"
    and old: "calls s t = Some c" "owns (at c) = Some ch"
  shows "chan_inv s'"
proof (rule chan_invI)
  show "\<not> panicked s'" by (rule p)
next
  fix x assume "x \<in> closed s'"
  then show "x < nchan s'"
    using closed_less [OF inv, of x] owns_less [OF inv old] by (auto simp: cl n)
next
  fix u c0 k assume u: "calls s' u = Some c0" and oc: "owns (at c0) = Some k"
  from u cs o oc have ut: "u \<noteq> t" by auto
  with u cs have su: "calls s u = Some c0" by simp
  have "k \<noteq> ch" using owns_unique [OF inv su old(1) oc] old(2) ut by auto
  then show "k < nchan s' \<and> k \<notin> closed s'"
    using owns_less [OF inv su oc] owns_open [OF inv su oc] by (simp add: cl n)
next
  fix u u' c0 d k
  assume u: "calls s' u = Some c0" and u': "calls s' u' = Some d"
    and oc: "owns (at c0) = Some k" and od: "owns (at d) = Some k"
  from u cs o oc have "u \<noteq> t" by auto
  with u cs have su: "calls s u = Some c0" by simp
  from u' cs o od have "u' \<noteq> t" by auto
  with u' cs have su': "calls s u' = Some d" by simp
  show "u = u'" using owns_unique [OF inv su su' oc od] .
qed


lemma chan_inv_not_panicked: "chan_inv s \<Longrightarrow> \<not> panicked s"
  by (simp add: chan_inv_def)

lemma chan_inv_getOrCreateLLMRequest:
  assumes inv: "chan_inv s" and c: "calls s t = Some c"
    and adv: "getOrCreateLLMRequest t (qname c) (at c) s = Some s'"
  shows "chan_inv s'"
proof -
  note np = chan_inv_not_panicked [OF inv]
  show ?thesis
  proof (cases "at c")
    case CheckCache
    with adv have "\<exists>l. s' = goto t (qname c) l s \<and> owns l = None"
      by (auto split: prod.splits if_splits)
    then show ?thesis using inv by (auto intro: chan_inv_goto_none)
  next
    case Acquire
    show ?thesis
    proof (cases "inFlightRequests s (qname c)")
      case (Some ch)
      with adv Acquire have "s' = goto t (qname c) (Wait ch) s" by simp
      then show ?thesis using inv by (simp add: chan_inv_goto_none)
    next
      case None
      with adv Acquire have s': "s' = goto t (qname c) (Generate (nchan s))
            (s\<lparr>nchan := nchan s + 1, inFlightRequests := (inFlightRequests s)(qname c \<mapsto> nchan s)\<rparr>)"
        by (simp add: Let_def)
      show ?thesis
        by (rule chan_inv_acquire [OF inv _ _ _ _ _ c, where c' = "\<lparr>qname = qname c, at = Generate (nchan s)\<rparr>"])
           (simp_all add: s' goto_def np Acquire)
    qed
  next
    case (Wait ch)
    with adv have "s' = goto t (qname c) Recheck s" by (simp split: if_splits)
    then show ?thesis using inv by (simp add: chan_inv_goto_none)
  next
    case Recheck
    with adv have "\<exists>l. s' = goto t (qname c) l s \<and> owns l = None"
      by (auto split: prod.splits if_splits)
    then show ?thesis using inv by (auto intro: chan_inv_goto_none)
  next
    case (Generate ch)
    with adv show ?thesis by simp
  next
    case (CloseFailed ch err)
    then have o: "owns (at c) = Some ch" by simp
    from owns_open [OF inv c o] adv CloseFailed
    have s': "s' = goto t (qname c) (Returned (Inl err)) (s\<lparr>closed := insert ch (closed s)\<rparr>)"
      by simp
    show ?thesis
      by (rule chan_inv_close [OF inv _ _ _ _ _ c o, where c' = "\<lparr>qname = qname c, at = Returned (Inl err)\<rparr>"])
         (simp_all add: s' goto_def np)
  next
    case (Commit ch resp)
    with adv have s': "s' = goto t (qname c) (Release ch resp) (setCache (qname c) resp s)" by simp
    show ?thesis
      by (rule chan_inv_update [OF inv, where t = t and c' = "\<lparr>qname = qname c, at = Release ch resp\<rparr>"])
         (simp_all add: s' goto_def setCache_def np c Commit)
  next
    case (Release ch resp)
    with adv have s': "s' = goto t (qname c) (CloseDone ch resp)
        (s\<lparr>inFlightRequests := (inFlightRequests s)(qname c := None)\<rparr>)" by simp
    show ?thesis
      by (rule chan_inv_update [OF inv, where t = t and c' = "\<lparr>qname = qname c, at = CloseDone ch resp\<rparr>"])
         (simp_all add: s' goto_def np c Release)
  next
    case (CloseDone ch resp)
    then have o: "owns (at c) = Some ch" by simp
    from owns_open [OF inv c o] adv CloseDone
    have s': "s' = goto t (qname c) (Returned (Inr resp)) (s\<lparr>closed := insert ch (closed s)\<rparr>)"
      by simp
    show ?thesis
      by (rule chan_inv_close [OF inv _ _ _ _ _ c o, where c' = "\<lparr>qname = qname c, at = Returned (Inr resp)\<rparr>"])
         (simp_all add: s' goto_def np)
  next
    case (Returned r)
    with adv show ?thesis by simp
  qed
qed

lemma chan_inv_step:
  assumes inv: "chan_inv s" and st: "step e s = Some s'"
  shows "chan_inv s'"
proof (cases e)
  case (Request t q)
  with st have "s' = goto t q CheckCache s" by (simp split: if_splits option.splits)
  then show ?thesis using inv by (simp add: chan_inv_goto_none)
next
  case (Step t)
  with st obtain c where "calls s t = Some c" and "getOrCreateLLMRequest t (qname c) (at c) s = Some s'"
    by (auto split: if_splits option.splits)
  then show ?thesis by (rule chan_inv_getOrCreateLLMRequest [OF inv])
next
  case (Reply t r)
  with st obtain c ch where c: "calls s t = Some c" and g: "at c = Generate ch"
    and s': "s' = goto t (qname c)
               (case r of Inl err \<Rightarrow> CloseFailed ch err | Inr resp \<Rightarrow> Commit ch resp)
               (s\<lparr>llmCalls := llmCalls s @ [qname c]\<rparr>)"
    by (auto split: if_splits option.splits label.splits)
  show ?thesis
    by (rule chan_inv_update [OF inv, where t = t and
          c' = "\<lparr>qname = qname c, at = (case r of Inl err \<Rightarrow> CloseFailed ch err | Inr resp \<Rightarrow> Commit ch resp)\<rparr>"])
       (simp_all add: s' goto_def chan_inv_not_panicked [OF inv] c g split: sum.splits)
next
  case (Tick d)
  with st have s': "s' = s\<lparr>now := now s + d\<rparr>" by (simp split: if_splits)
  show ?thesis using inv unfolding s' chan_inv_def by simp
qed

lemma chan_inv_init: "chan_inv (init t0)"
  by (simp add: chan_inv_def init_def)

lemma chan_inv_run: "chan_inv s \<Longrightarrow> run es s = Some s' \<Longrightarrow> chan_inv s'"
proof (induction es arbitrary: s)
  case Nil
  then show ?case by simp
next
  case (Cons e es)
  then show ?case by (auto split: option.splits dest: chan_inv_step)
qed

text \<open>No execution panics: a channel is closed once, by the call that made it.\<close>

lemma never_panics: "run es (init t0) = Some s \<Longrightarrow> \<not> panicked s"
  using chan_inv_run [OF chan_inv_init] chan_inv_not_panicked by blast

lemma commit_inv_init: "commit_inv (init t0)"
  by (simp add: commit_inv_def init_def)

lemma commit_inv_run: "commit_inv s \<Longrightarrow> run es s = Some s' \<Longrightarrow> commit_inv s'"
proof (induction es arbitrary: s)
  case Nil
  then show ?case by simp
next
  case (Cons e es)
  then show ?case by (auto split: option.splits dest: commit_inv_step)
qed

lemma cache_grows_step:
  assumes "step e s = Some s'" and "cache s q \<noteq> None"
  shows "cache s' q \<noteq> None"
proof (cases e)
  case (Request t k)
  with assms show ?thesis by (auto simp: goto_def split: if_splits option.splits)
next
  case (Step t)
  with assms(1) obtain c where "calls s t = Some c"
    and adv: "getOrCreateLLMRequest t (qname c) (at c) s = Some s'"
    by (auto split: if_splits option.splits)
  with assms(2) show ?thesis
    by (cases "at c") (auto simp: goto_def setCache_def Let_def split: if_splits option.splits prod.splits)
next
  case (Reply t r)
  with assms show ?thesis
    by (auto simp: goto_def split: if_splits option.splits label.splits)
next
  case (Tick d)
  with assms show ?thesis by (auto split: if_splits)
qed

lemma cache_grows_run: "run es s = Some s' \<Longrightarrow> cache s q \<noteq> None \<Longrightarrow> cache s' q \<noteq> None"
proof (induction es arbitrary: s)
  case Nil
  then show ?case by simp
next
  case (Cons e es)
  then show ?case by (auto split: option.splits dest: cache_grows_step)
qed

lemma registered_owns: "registered l = Some ch \<Longrightarrow> owns l = Some ch"
  by (cases l) simp_all

lemma slot_invD:
  "slot_inv s \<Longrightarrow> calls s t = Some c \<Longrightarrow> registered (at c) = Some ch \<Longrightarrow>
   inFlightRequests s (qname c) = Some ch"
  unfolding slot_inv_def by blast

lemma slot_inv_update:
  assumes inv: "slot_inv s"
    and fl: "inFlightRequests s' = inFlightRequests s"
    and cs: "calls s' = (calls s)(t \<mapsto> c')"
    and r: "registered (at c') = None \<or>
            (\<exists>c. calls s t = Some c \<and> registered (at c') = registered (at c) \<and> qname c' = qname c)"
  shows "slot_inv s'"
  unfolding slot_inv_def
proof (intro allI impI)
  fix u d ch assume u: "calls s' u = Some d" and rd: "registered (at d) = Some ch"
  show "inFlightRequests s' (qname d) = Some ch"
  proof (cases "u = t")
    case True
    with u cs have "d = c'" by simp
    with r rd obtain c where "calls s t = Some c" "registered (at c) = Some ch" "qname d = qname c"
      by auto
    then show ?thesis using slot_invD [OF inv] by (simp add: fl)
  next
    case False
    with u cs have "calls s u = Some d" by simp
    then show ?thesis using slot_invD [OF inv _ rd] by (simp add: fl)
  qed
qed

lemma slot_inv_acquire:
  assumes inv: "slot_inv s"
    and free: "inFlightRequests s q = None"
    and fl: "inFlightRequests s' = (inFlightRequests s)(q \<mapsto> ch)"
    and cs: "calls s' = (calls s)(t \<mapsto> \<lparr>qname = q, at = Generate ch\<rparr>)"
  shows "slot_inv s'"
  unfolding slot_inv_def
proof (intro allI impI)
  fix u d k assume u: "calls s' u = Some d" and rd: "registered (at d) = Some k"
  show "inFlightRequests s' (qname d) = Some k"
  proof (cases "u = t")
    case True
    with u cs rd show ?thesis by (auto simp: fl)
  next
    case False
    with u cs have su: "calls s u = Some d" by simp
    have k: "inFlightRequests s (qname d) = Some k" using slot_invD [OF inv su rd] .
    with free have "qname d \<noteq> q" by auto
    with k show ?thesis by (simp add: fl)
  qed
qed

lemma slot_inv_release:
  assumes inv: "slot_inv s" and cinv: "chan_inv s"
    and c: "calls s t = Some c" and reg: "registered (at c) = Some ch"
    and fl: "inFlightRequests s' = (inFlightRequests s)(qname c := None)"
    and cs: "calls s' = (calls s)(t \<mapsto> c')"
    and r: "registered (at c') = None"
  shows "slot_inv s'"
  unfolding slot_inv_def
proof (intro allI impI)
  fix u d k assume u: "calls s' u = Some d" and rd: "registered (at d) = Some k"
  from u cs r rd have ut: "u \<noteq> t" by auto
  with u cs have su: "calls s u = Some d" by simp
  have k: "inFlightRequests s (qname d) = Some k" using slot_invD [OF inv su rd] .
  have "qname d \<noteq> qname c"
  proof
    assume "qname d = qname c"
    with k slot_invD [OF inv c reg] have "k = ch" by simp
    with owns_unique [OF cinv su c registered_owns [OF rd]] registered_owns [OF reg] ut
    show False by simp
  qed
  with k show "inFlightRequests s' (qname d) = Some k" by (simp add: fl)
qed

lemma slot_inv_getOrCreateLLMRequest:
  assumes inv: "slot_inv s" and cinv: "chan_inv s" and c: "calls s t = Some c"
    and adv: "getOrCreateLLMRequest t (qname c) (at c) s = Some s'"
  shows "slot_inv s'"
proof (cases "at c")
  case CheckCache
  with adv have "\<exists>l. s' = goto t (qname c) l s \<and> registered l = None"
    by (auto split: prod.splits if_splits)
  then obtain l where "s' = goto t (qname c) l s" "registered l = None" by blast
  then show ?thesis
    by (intro slot_inv_update [OF inv, where t = t and c' = "\<lparr>qname = qname c, at = l\<rparr>"])
       (simp_all add: goto_def)
next
  case Acquire
  show ?thesis
  proof (cases "inFlightRequests s (qname c)")
    case (Some ch)
    with adv Acquire have "s' = goto t (qname c) (Wait ch) s" by simp
    then show ?thesis
      by (intro slot_inv_update [OF inv, where t = t and c' = "\<lparr>qname = qname c, at = Wait ch\<rparr>"])
         (simp_all add: goto_def)
  next
    case None
    with adv Acquire have s': "s' = goto t (qname c) (Generate (nchan s))
          (s\<lparr>nchan := nchan s + 1, inFlightRequests := (inFlightRequests s)(qname c \<mapsto> nchan s)\<rparr>)"
      by (simp add: Let_def)
    show ?thesis
      by (rule slot_inv_acquire [OF inv None, where ch = "nchan s" and t = t])
         (simp_all add: s' goto_def)
  qed
next
  case (Wait ch)
  with adv have "s' = goto t (qname c) Recheck s" by (simp split: if_splits)
  then show ?thesis
    by (intro slot_inv_update [OF inv, where t = t and c' = "\<lparr>qname = qname c, at = Recheck\<rparr>"])
       (simp_all add: goto_def)
next
  case Recheck
  with adv have "\<exists>l. s' = goto t (qname c) l s \<and> registered l = None"
    by (auto split: prod.splits if_splits)
  then obtain l where "s' = goto t (qname c) l s" "registered l = None" by blast
  then show ?thesis
    by (intro slot_inv_update [OF inv, where t = t and c' = "\<lparr>qname = qname c, at = l\<rparr>"])
       (simp_all add: goto_def)
next
  case (Generate ch)
  with adv show ?thesis by simp
next
  case (CloseFailed ch err)
  then have o: "owns (at c) = Some ch" by simp
  from owns_open [OF cinv c o] adv CloseFailed
  have s': "s' = goto t (qname c) (Returned (Inl err)) (s\<lparr>closed := insert ch (closed s)\<rparr>)"
    by simp
  show ?thesis
    by (rule slot_inv_update [OF inv, where t = t and c' = "\<lparr>qname = qname c, at = Returned (Inl err)\<rparr>"])
       (simp_all add: s' goto_def)
next
  case (Commit ch resp)
  with adv have s': "s' = goto t (qname c) (Release ch resp) (setCache (qname c) resp s)" by simp
  show ?thesis
    by (rule slot_inv_update [OF inv, where t = t and c' = "\<lparr>qname = qname c, at = Release ch resp\<rparr>"])
       (simp_all add: s' goto_def setCache_def c Commit)
next
  case (Release ch resp)
  with adv have s': "s' = goto t (qname c) (CloseDone ch resp)
      (s\<lparr>inFlightRequests := (inFlightRequests s)(qname c := None)\<rparr>)" by simp
  show ?thesis
    by (rule slot_inv_release [OF inv cinv c, where ch = ch and c' = "\<lparr>qname = qname c, at = CloseDone ch resp\<rparr>"])
       (simp_all add: s' goto_def Release)
next
  case (CloseDone ch resp)
  then have o: "owns (at c) = Some ch" by simp
  from owns_open [OF cinv c o] adv CloseDone
  have s': "s' = goto t (qname c) (Returned (Inr resp)) (s\<lparr>closed := insert ch (closed s)\<rparr>)"
    by simp
  show ?thesis
    by (rule slot_inv_update [OF inv, where t = t and c' = "\<lparr>qname = qname c, at = Returned (Inr resp)\<rparr>"])
       (simp_all add: s' goto_def)
next
  case (Returned r)
  with adv show ?thesis by simp
qed

lemma slot_inv_step:
  assumes inv: "slot_inv s" and cinv: "chan_inv s" and st: "step e s = Some s'"
  shows "slot_inv s'"
proof (cases e)
  case (Request t q)
  with st have "s' = goto t q CheckCache s" by (simp split: if_splits option.splits)
  then show ?thesis
    by (intro slot_inv_update [OF inv, where t = t and c' = "\<lparr>qname = q, at = CheckCache\<rparr>"])
       (simp_all add: goto_def)
next
  case (Step t)
  with st obtain c where "calls s t = Some c" and "getOrCreateLLMRequest t (qname c) (at c) s = Some s'"
    by (auto split: if_splits option.splits)
  then show ?thesis by (rule slot_inv_getOrCreateLLMRequest [OF inv cinv])
next
  case (Reply t r)
  with st obtain c ch where c: "calls s t = Some c" and g: "at c = Generate ch"
    and s': "s' = goto t (qname c)
               (case r of Inl err \<Rightarrow> CloseFailed ch err | Inr resp \<Rightarrow> Commit ch resp)
               (s\<lparr>llmCalls := llmCalls s @ [qname c]\<rparr>)"
    by (auto split: if_splits option.splits label.splits)
  show ?thesis
    by (rule slot_inv_update [OF inv, where t = t and
          c' = "\<lparr>qname = qname c, at = (case r of Inl err \<Rightarrow> CloseFailed ch err | Inr resp \<Rightarrow> Commit ch resp)\<rparr>"])
       (simp_all add: s' goto_def c g split: sum.splits)
next
  case (Tick d)
  with st have s': "s' = s\<lparr>now := now s + d\<rparr>" by (simp split: if_splits)
  show ?thesis using inv unfolding s' slot_inv_def by simp
qed

lemma slot_inv_init: "slot_inv (init t0)"
  by (simp add: slot_inv_def init_def)

lemma release_invD:
  "release_inv s \<Longrightarrow> calls s t = Some c \<Longrightarrow> at c = Release ch resp \<Longrightarrow>
   \<exists>e. cache s (qname c) = Some e \<and> response e = resp"
  unfolding release_inv_def by blast

lemma release_inv_update:
  assumes inv: "release_inv s"
    and ca: "cache s' = cache s"
    and cs: "calls s' = (calls s)(t \<mapsto> c')"
    and r: "\<forall>ch resp. at c' \<noteq> Release ch resp"
  shows "release_inv s'"
  unfolding release_inv_def
proof (intro allI impI)
  fix u d ch resp assume u: "calls s' u = Some d" and rd: "at d = Release ch resp"
  from u cs r rd have "u \<noteq> t" by auto
  with u cs have "calls s u = Some d" by simp
  from release_invD [OF inv this rd] show "\<exists>e. cache s' (qname d) = Some e \<and> response e = resp"
    by (simp add: ca)
qed

lemma release_inv_commit:
  assumes inv: "release_inv s" and cinv: "chan_inv s" and sinv: "slot_inv s"
    and c: "calls s t = Some c" and at: "at c = Commit ch resp"
    and ca: "cache s' = (cache s)(qname c \<mapsto> \<lparr>response = resp, expiresAt = x\<rparr>)"
    and cs: "calls s' = (calls s)(t \<mapsto> \<lparr>qname = qname c, at = Release ch resp\<rparr>)"
  shows "release_inv s'"
  unfolding release_inv_def
proof (intro allI impI)
  fix u d k v assume u: "calls s' u = Some d" and rd: "at d = Release k v"
  show "\<exists>e. cache s' (qname d) = Some e \<and> response e = v"
  proof (cases "u = t")
    case True
    with u cs rd show ?thesis by (auto simp: ca)
  next
    case False
    with u cs have su: "calls s u = Some d" by simp
    have "qname d \<noteq> qname c"
    proof
      assume same: "qname d = qname c"
      have "inFlightRequests s (qname d) = Some k" using slot_invD [OF sinv su] rd by simp
      moreover have "inFlightRequests s (qname c) = Some ch" using slot_invD [OF sinv c] at by simp
      ultimately have "k = ch" using same by simp
      then have "u = t" using owns_unique [OF cinv su c, of ch] rd at by simp
      with False show False by simp
    qed
    with release_invD [OF inv su rd] show ?thesis by (simp add: ca)
  qed
qed

lemma release_inv_step:
  assumes inv: "release_inv s" and cinv: "chan_inv s" and sinv: "slot_inv s"
    and st: "step e s = Some s'"
  shows "release_inv s'"
proof (cases e)
  case (Request t q)
  with st have "s' = goto t q CheckCache s" by (simp split: if_splits option.splits)
  then show ?thesis
    by (intro release_inv_update [OF inv, where t = t and c' = "\<lparr>qname = q, at = CheckCache\<rparr>"])
       (simp_all add: goto_def)
next
  case (Step t)
  with st obtain c where c: "calls s t = Some c"
    and adv: "getOrCreateLLMRequest t (qname c) (at c) s = Some s'"
    by (auto split: if_splits option.splits)
  show ?thesis
  proof (cases "\<exists>ch resp. at c = Commit ch resp")
    case True
    then obtain ch resp where at: "at c = Commit ch resp" by blast
    with adv have s': "s' = goto t (qname c) (Release ch resp) (setCache (qname c) resp s)" by simp
    show ?thesis
      by (rule release_inv_commit [OF inv cinv sinv c at, where x = "now s + cacheDuration"])
         (simp_all add: s' goto_def setCache_def)
  next
    case False
    have "\<exists>c'. cache s' = cache s \<and> calls s' = (calls s)(t \<mapsto> c') \<and>
               (\<forall>ch resp. at c' \<noteq> Release ch resp)"
    proof (cases "at c")
      case (CloseFailed ch err)
      with adv owns_open [OF cinv c, of ch] show ?thesis by (auto simp: goto_def)
    next
      case (CloseDone ch resp)
      with adv owns_open [OF cinv c, of ch] show ?thesis by (auto simp: goto_def)
    next
      case (Commit ch resp)
      with False show ?thesis by simp
    qed (use adv in \<open>auto simp: goto_def Let_def split: if_splits option.splits prod.splits\<close>)
    then obtain c' where "cache s' = cache s" "calls s' = (calls s)(t \<mapsto> c')"
      "\<forall>ch resp. at c' \<noteq> Release ch resp" by blast
    then show ?thesis by (rule release_inv_update [OF inv])
  qed
next
  case (Reply t r)
  with st obtain c ch where c: "calls s t = Some c" and g: "at c = Generate ch"
    and s': "s' = goto t (qname c)
               (case r of Inl err \<Rightarrow> CloseFailed ch err | Inr resp \<Rightarrow> Commit ch resp)
               (s\<lparr>llmCalls := llmCalls s @ [qname c]\<rparr>)"
    by (auto split: if_splits option.splits label.splits)
  show ?thesis
    by (rule release_inv_update [OF inv, where t = t and
          c' = "\<lparr>qname = qname c, at = (case r of Inl err \<Rightarrow> CloseFailed ch err | Inr resp \<Rightarrow> Commit ch resp)\<rparr>"])
       (simp_all add: s' goto_def split: sum.splits)
next
  case (Tick d)
  with st have s': "s' = s\<lparr>now := now s + d\<rparr>" by (simp split: if_splits)
  show ?thesis using inv unfolding s' release_inv_def by simp
qed

lemma release_inv_init: "release_inv (init t0)"
  by (simp add: release_inv_def init_def)

lemma all_invs_run:
  "chan_inv s \<Longrightarrow> slot_inv s \<Longrightarrow> release_inv s \<Longrightarrow> run es s = Some s' \<Longrightarrow>
   chan_inv s' \<and> slot_inv s' \<and> release_inv s'"
proof (induction es arbitrary: s)
  case Nil
  then show ?case by simp
next
  case (Cons e es)
  from Cons.prems(4) obtain s1 where s1: "step e s = Some s1" and r: "run es s1 = Some s'"
    by (auto split: option.splits)
  from chan_inv_step [OF Cons.prems(1) s1] slot_inv_step [OF Cons.prems(2) Cons.prems(1) s1]
    release_inv_step [OF Cons.prems(3) Cons.prems(1) Cons.prems(2) s1]
  show ?case using Cons.IH [OF _ _ _ r] by blast
qed

text \<open>
  At most one call per query stands between the registration of its channel and the
  removal of the entry (or, after a failure, its return): calls for the same query never
  run \<^verbatim>\<open>getLLMResponse\<close> at the same time.
\<close>

lemma one_generation_per_query:
  assumes reach: "run es (init t0) = Some s"
    and t: "calls s t = Some c" and u: "calls s u = Some d"
    and rc: "registered (at c) = Some ch" and rd: "registered (at d) = Some k"
    and same: "qname c = qname d"
  shows "t = u"
proof -
  from all_invs_run [OF chan_inv_init slot_inv_init release_inv_init reach]
  have ci: "chan_inv s" and si: "slot_inv s" by simp_all
  from slot_invD [OF si t rc] slot_invD [OF si u rd] same have "k = ch" by simp
  with owns_unique [OF ci t u registered_owns [OF rc]] registered_owns [OF rd]
  show ?thesis by simp
qed

lemma getCache_calls_update: "getCache q (s\<lparr>calls := f\<rparr>) = getCache q s"
  by (simp add: getCache_def split: option.splits)

lemma getCache_miss: "snd (getCache q s) = False \<Longrightarrow> getCache q s = ([], False)"
  by (auto simp: getCache_def split: option.splits if_splits)

lemma fresh_hit:
  assumes "\<not> panicked s" and "calls s t = None" and "cache s k = Some e" and "now s < expiresAt e"
  shows "run [Request t k, Step t] s = Some (goto t k (Returned (Inr (response e))) s)"
  using assms by (simp add: goto_def getCache_def)

subsection \<open>The cache\<close>

text \<open>
  Claim C9. \<^verbatim>\<open>getCache\<close> reports not found exactly when the map has no entry for the
  query or the entry's expiry instant is not after the current time; an entry whose
  expiry is strictly after the current time is found and its response returned.
  \<^verbatim>\<open>setCache\<close> stores the response with the expiry instant "now plus the cache duration",
  whatever was stored before, and leaves the other queries alone; a read that follows at
  the same instant finds it.
\<close>

theorem cache_get_set:
  "(snd (getCache q s) = False \<longleftrightarrow>
      cache s q = None \<or> (\<exists>e. cache s q = Some e \<and> expiresAt e \<le> now s)) \<and>
   (\<forall>e. cache s q = Some e \<and> now s < expiresAt e \<longrightarrow> getCache q s = (response e, True)) \<and>
   cache (setCache q res s) q = Some \<lparr>response = res, expiresAt = now s + cacheDuration\<rparr> \<and>
   (\<forall>q'. q' \<noteq> q \<longrightarrow> cache (setCache q res s) q' = cache s q') \<and>
   getCache q (setCache q res s) = (res, True)"
  by (auto simp: getCache_def setCache_def cacheDuration_def split: option.splits)

theorem cache_get_set_witness:
  "cache (init 0) ''q'' = None \<and> snd (getCache ''q'' (init 0)) = False \<and>
   cache (setCache ''q'' ''answer'' (init 0)) ''q'' =
     Some \<lparr>response = ''answer'', expiresAt = now (init 0) + cacheDuration\<rparr> \<and>
   ''p'' \<noteq> ''q'' \<and>
   cache (setCache ''q'' ''answer'' (init 0)) ''p'' = cache (init 0) ''p'' \<and>
   getCache ''q'' (setCache ''q'' ''answer'' (init 0)) = (''answer'', True)"
proof -
  note T = cache_get_set [of "''q''" "init 0" "''answer''"]
  have a: "cache (init 0) ''q'' = None" by (simp add: init_def)
  have b: "''p'' \<noteq> ''q''" by simp
  have 1: "snd (getCache ''q'' (init 0)) = False"
    using T [THEN conjunct1] a by simp
  note 2 = T [THEN conjunct2, THEN conjunct2, THEN conjunct1]
  note 3 = T [THEN conjunct2, THEN conjunct2, THEN conjunct2, THEN conjunct1, THEN spec, THEN mp, OF b]
  note 4 = T [THEN conjunct2, THEN conjunct2, THEN conjunct2, THEN conjunct2]
  show ?thesis
    by (intro conjI) (rule a 1 2 b 3 4)+
qed

subsection \<open>Cache hits within the lifetime of an entry\<close>

text \<open>
  When no other call moves in between: from any reachable state in which the cache misses
  for \<open>k\<close> and \<^verbatim>\<open>inFlightRequests\<close> has no entry for it, a call for \<open>k\<close> whose generation
  succeeds with \<open>resp\<close> returns \<open>resp\<close>, and a second call for \<open>k\<close> that starts less than
  the cache duration later returns the same \<open>resp\<close> in its first action, by lemma
  \<open>fresh_hit\<close>: it does not call \<^verbatim>\<open>getLLMResponse\<close> and touches neither
  \<^verbatim>\<open>inFlightRequests\<close> nor any channel.
\<close>

lemma hit_after_success_in_isolation:
  assumes reach: "run es (init t0) = Some s"
    and t: "calls s t = None" and t2: "calls s t2 = None" and ne: "t \<noteq> t2"
    and miss: "snd (getCache k s) = False" and free: "inFlightRequests s k = None"
    and d0: "0 \<le> d0" and d: "0 \<le> d" "d < cacheDuration"
  shows "\<exists>s1 s2.
           run [Request t k, Step t, Step t, Tick d0, Reply t (Inr resp), Step t, Step t, Step t] s
             = Some s1 \<and>
           result s1 t = Some (Inr resp) \<and> llmCalls s1 = llmCalls s @ [k] \<and>
           run [Tick d, Request t2 k, Step t2] s1 = Some s2 \<and>
           result s2 t2 = Some (Inr resp) \<and> llmCalls s2 = llmCalls s1 \<and>
           inFlightRequests s2 = inFlightRequests s1 \<and> nchan s2 = nchan s1 \<and>
           cache s2 = cache s1"
proof -
  have inv: "chan_inv s" using chan_inv_run [OF chan_inv_init reach] .
  have np: "\<not> panicked s" using chan_inv_not_panicked [OF inv] .
  have fresh: "nchan s \<notin> closed s" using closed_less [OF inv, of "nchan s"] by auto
  define s1 where "s1 = s\<lparr>cache := (cache s)(k \<mapsto> \<lparr>response = resp, expiresAt = now s + d0 + cacheDuration\<rparr>),
      inFlightRequests := (inFlightRequests s)(k := None),
      closed := insert (nchan s) (closed s), nchan := Suc (nchan s), now := now s + d0,
      llmCalls := llmCalls s @ [k],
      calls := (calls s)(t \<mapsto> \<lparr>qname = k, at = Returned (Inr resp)\<rparr>)\<rparr>"
  have m: "getCache k s = ([], False)" using miss by (rule getCache_miss)
  have r1: "run [Request t k, Step t, Step t, Tick d0, Reply t (Inr resp), Step t, Step t, Step t] s = Some s1"
    using np t free d0 fresh
    by (simp add: goto_def getCache_calls_update m setCache_def s1_def Let_def)
  have s1p: "\<not> panicked s1 \<and> calls s1 t2 = None" using np t2 ne by (simp add: s1_def)
  define s1' where "s1' = s1\<lparr>now := now s1 + d\<rparr>"
  have tick: "step (Tick d) s1 = Some s1'" using s1p d by (simp add: s1'_def)
  have "run [Request t2 k, Step t2] s1' =
          Some (goto t2 k (Returned (Inr (response \<lparr>response = resp, expiresAt = now s + d0 + cacheDuration\<rparr>))) s1')"
    by (rule fresh_hit) (use s1p d in \<open>simp_all add: s1'_def s1_def\<close>)
  then have r2: "run [Tick d, Request t2 k, Step t2] s1 = Some (goto t2 k (Returned (Inr resp)) s1')"
    using tick by simp
  show ?thesis
    apply (rule exI [of _ s1], rule exI [of _ "goto t2 k (Returned (Inr resp)) s1'"])
    apply (simp only: r1 r2)
    apply (simp add: result_def goto_def s1'_def s1_def ne)
    done
qed

subsection \<open>Order of the cache write, the removal of the entry and the signal\<close>

text \<open>
  Claim C6. Take any reachable state in which a call whose generation succeeded stands
  just before \<^verbatim>\<open>delete(inFlightRequests, q)\<close> or just before \<^verbatim>\<open>close(ch)\<close>. Its channel is
  still open there (the signal has not fired) and the cache already has an entry for the
  query; just before the delete, the entry of \<^verbatim>\<open>inFlightRequests\<close> is still the call's own
  and the cached response is the call's own. In every state reached later the cache still
  has an entry for the query, so a waiting call that has been woken and reads the cache
  again finds it and returns its response, as long as the entry has not expired.
\<close>

theorem cache_committed_before_signal:
  assumes reach: "run es (init t0) = Some s"
    and c: "calls s t = Some c"
    and at: "at c = Release ch resp \<or> at c = CloseDone ch resp"
    and later: "run es' s = Some s'"
  shows "ch \<notin> closed s \<and>
         (at c = Release ch resp \<longrightarrow>
            inFlightRequests s (qname c) = Some ch \<and>
            (\<exists>e. cache s (qname c) = Some e \<and> response e = resp)) \<and>
         (\<exists>e. cache s (qname c) = Some e) \<and>
         (\<exists>e. cache s' (qname c) = Some e \<and>
              (now s' < expiresAt e \<longrightarrow>
                 getCache (qname c) s' = (response e, True) \<and>
                 (\<forall>u d. calls s' u = Some d \<and> at d = Recheck \<and> qname d = qname c \<longrightarrow>
                    (\<exists>s''. step (Step u) s' = Some s'' \<and> result s'' u = Some (Inr (response e))))))"
proof -
  from all_invs_run [OF chan_inv_init slot_inv_init release_inv_init reach]
  have inv: "chan_inv s" and sinv: "slot_inv s" and rinv: "release_inv s" by simp_all
  have inv': "chan_inv s'" using chan_inv_run [OF inv later] .
  from at have "owns (at c) = Some ch" by auto
  then have opn: "ch \<notin> closed s" using owns_open [OF inv c] by simp
  have rel: "inFlightRequests s (qname c) = Some ch \<and>
             (\<exists>e. cache s (qname c) = Some e \<and> response e = resp)"
    if "at c = Release ch resp"
    using slot_invD [OF sinv c, of ch] release_invD [OF rinv c that] that by simp
  have "commit_inv s" using commit_inv_run [OF commit_inv_init reach] .
  with c at have here: "cache s (qname c) \<noteq> None" unfolding commit_inv_def by auto
  then have "cache s' (qname c) \<noteq> None" using cache_grows_run [OF later] by simp
  then obtain e where e: "cache s' (qname c) = Some e" by auto
  have "getCache (qname c) s' = (response e, True) \<and>
        (\<forall>u d. calls s' u = Some d \<and> at d = Recheck \<and> qname d = qname c \<longrightarrow>
           (\<exists>s''. step (Step u) s' = Some s'' \<and> result s'' u = Some (Inr (response e))))"
    if fresh: "now s' < expiresAt e"
  proof -
    have g: "getCache (qname c) s' = (response e, True)" using e fresh by (simp add: getCache_def)
    moreover have "\<exists>s''. step (Step u) s' = Some s'' \<and> result s'' u = Some (Inr (response e))"
      if "calls s' u = Some d \<and> at d = Recheck \<and> qname d = qname c" for u d
      using that g chan_inv_not_panicked [OF inv'] by (simp add: goto_def result_def)
    ultimately show ?thesis by blast
  qed
  with opn rel here e show ?thesis by blast
qed

theorem cache_committed_before_signal_witness:
  "\<exists>s s' c e.
     run [Request 0 ''q'', Request 1 ''q'', Step 0, Step 1, Step 0, Step 1,
          Reply 0 (Inr ''answer''), Step 0] (init 0) = Some s \<and>
     calls s 0 = Some c \<and> at c = Release 0 ''answer'' \<and> qname c = ''q'' \<and>
     run [Step 0, Step 0, Step 1] s = Some s' \<and>
     0 \<notin> closed s \<and> inFlightRequests s ''q'' = Some 0 \<and>
     cache s' ''q'' = Some e \<and> response e = ''answer'' \<and> now s' < expiresAt e \<and>
     getCache ''q'' s' = (''answer'', True) \<and>
     (\<exists>s''. step (Step 1) s' = Some s'' \<and> result s'' 1 = Some (Inr ''answer''))"
proof -
  define c0 where "c0 = \<lparr>qname = ''q'', at = Release 0 ''answer''\<rparr>"
  define d0 where "d0 = \<lparr>qname = ''q'', at = Recheck\<rparr>"
  define e0 where "e0 = \<lparr>response = ''answer'', expiresAt = cacheDuration\<rparr>"
  have "\<exists>s. run [Request 0 ''q'', Request 1 ''q'', Step 0, Step 1, Step 0, Step 1,
          Reply 0 (Inr ''answer''), Step 0] (init 0) = Some s \<and>
        calls s 0 = Some c0 \<and>
        (\<exists>s'. run [Step 0, Step 0, Step 1] s = Some s' \<and> cache s' ''q'' = Some e0 \<and>
              now s' = 0 \<and> calls s' 1 = Some d0)"
    by (simp add: init_def getCache_def setCache_def goto_def c0_def d0_def e0_def)
  then obtain s s' where r: "run [Request 0 ''q'', Request 1 ''q'', Step 0, Step 1, Step 0, Step 1,
          Reply 0 (Inr ''answer''), Step 0] (init 0) = Some s"
    and c: "calls s 0 = Some c0"
    and r': "run [Step 0, Step 0, Step 1] s = Some s'"
    and ca: "cache s' ''q'' = Some e0" and n: "now s' = 0" and d: "calls s' 1 = Some d0"
    by blast
  have a: "at c0 = Release 0 ''answer'' \<or> at c0 = CloseDone 0 ''answer''" by (simp add: c0_def)
  have a1: "at c0 = Release 0 ''answer''" and q: "qname c0 = ''q''" by (simp_all add: c0_def)
  note W = cache_committed_before_signal [OF r c a r']
  from W have w1: "0 \<notin> closed s" by (rule conjunct1)
  from W [THEN conjunct2, THEN conjunct1, THEN mp, OF a1]
  have w2: "inFlightRequests s ''q'' = Some 0" unfolding q by (rule conjunct1)
  from W [THEN conjunct2, THEN conjunct2, THEN conjunct2]
  obtain e where e: "cache s' (qname c0) = Some e"
    and f: "now s' < expiresAt e \<longrightarrow>
                 getCache (qname c0) s' = (response e, True) \<and>
                 (\<forall>u d. calls s' u = Some d \<and> at d = Recheck \<and> qname d = qname c0 \<longrightarrow>
                    (\<exists>s''. step (Step u) s' = Some s'' \<and> result s'' u = Some (Inr (response e))))"
    by blast
  from e ca have ee: "e = e0" unfolding q by simp
  have re: "response e = ''answer''" unfolding ee by (simp add: e0_def)
  have fresh: "now s' < expiresAt e"
    unfolding ee n by (simp add: e0_def cacheDuration_def)
  from f [THEN mp, OF fresh] have g: "getCache ''q'' s' = (''answer'', True)"
    and fol: "\<forall>u d. calls s' u = Some d \<and> at d = Recheck \<and> qname d = ''q'' \<longrightarrow>
                    (\<exists>s''. step (Step u) s' = Some s'' \<and> result s'' u = Some (Inr ''answer''))"
    unfolding q re by simp_all
  have "calls s' 1 = Some d0 \<and> at d0 = Recheck \<and> qname d0 = ''q''"
    using d by (simp add: d0_def)
  with fol have last: "\<exists>s''. step (Step 1) s' = Some s'' \<and> result s'' 1 = Some (Inr ''answer'')"
    by blast
  from e have e': "cache s' ''q'' = Some e" unfolding q .
  from r c a1 q r' w1 w2 e' re fresh g last show ?thesis by blast
qed

subsection \<open>The waiting call\<close>

text \<open>
  Claim C7. A call waiting on a channel cannot move while the channel is open. Once the
  channel is closed, its next two actions (the receive and the second \<^verbatim>\<open>getCache\<close>) make
  it return the cached response when the cache has an unexpired entry for the query, and
  otherwise the error whose message is \<^verbatim>\<open>upstream generation failed\<close>; they change
  neither map and call no generator. In the execution where a first call fails with any
  error \<open>err\<close> while a second one waits, the first returns \<open>err\<close> and the second returns
  that fixed error, which does not depend on \<open>err\<close>.
\<close>

theorem follower_rereads_cache:
  "(\<not> panicked s \<and> calls s t = Some c \<and> at c = Wait ch \<and> ch \<notin> closed s \<longrightarrow>
      step (Step t) s = None) \<and>
   (\<not> panicked s \<and> calls s t = Some c \<and> at c = Wait ch \<and> ch \<in> closed s \<longrightarrow>
      (\<exists>s'. run [Step t, Step t] s = Some s' \<and>
            result s' t =
              Some (case cache s (qname c) of
                      None \<Rightarrow> Inl (Error ''upstream generation failed'')
                    | Some e \<Rightarrow>
                        if now s < expiresAt e then Inr (response e)
                        else Inl (Error ''upstream generation failed'')) \<and>
            cache s' = cache s \<and> inFlightRequests s' = inFlightRequests s \<and>
            llmCalls s' = llmCalls s)) \<and>
   (\<exists>s'. run [Request 0 q, Request 1 q, Step 0, Step 1, Step 0, Step 1,
              Reply 0 (Inl err), Step 0, Step 1, Step 1] (init t0) = Some s' \<and>
         result s' 0 = Some (Inl err) \<and>
         result s' 1 = Some (Inl (Error ''upstream generation failed'')))"
proof (intro conjI impI)
  assume "\<not> panicked s \<and> calls s t = Some c \<and> at c = Wait ch \<and> ch \<notin> closed s"
  then show "step (Step t) s = None" by simp
next
  assume a: "\<not> panicked s \<and> calls s t = Some c \<and> at c = Wait ch \<and> ch \<in> closed s"
  then have 1: "step (Step t) s = Some (goto t (qname c) Recheck s)" by simp
  show "\<exists>s'. run [Step t, Step t] s = Some s' \<and>
            result s' t =
              Some (case cache s (qname c) of
                      None \<Rightarrow> Inl (Error ''upstream generation failed'')
                    | Some e \<Rightarrow>
                        if now s < expiresAt e then Inr (response e)
                        else Inl (Error ''upstream generation failed'')) \<and>
            cache s' = cache s \<and> inFlightRequests s' = inFlightRequests s \<and>
            llmCalls s' = llmCalls s"
    using a by (simp add: 1 goto_def getCache_def result_def split: option.splits)
next
  show "\<exists>s'. run [Request 0 q, Request 1 q, Step 0, Step 1, Step 0, Step 1,
              Reply 0 (Inl err), Step 0, Step 1, Step 1] (init t0) = Some s' \<and>
         result s' 0 = Some (Inl err) \<and>
         result s' 1 = Some (Inl (Error ''upstream generation failed''))"
    by (simp add: init_def getCache_def goto_def result_def)
qed

theorem follower_rereads_cache_witness:
  "\<exists>s c. run [Request 0 ''q'', Request 1 ''q'', Step 0, Step 1, Step 0, Step 1,
               Reply 0 (Inl (Error ''timeout'')), Step 0] (init 0) = Some s \<and>
         \<not> panicked s \<and> calls s 1 = Some c \<and> at c = Wait 0 \<and> 0 \<in> closed s \<and>
         cache s (qname c) = None \<and>
         (\<exists>s'. run [Step 1, Step 1] s = Some s' \<and>
               result s' 1 = Some (Inl (Error ''upstream generation failed'')))"
proof -
  have "\<exists>s. run [Request 0 ''q'', Request 1 ''q'', Step 0, Step 1, Step 0, Step 1,
               Reply 0 (Inl (Error ''timeout'')), Step 0] (init 0) = Some s \<and>
         \<not> panicked s \<and> calls s 1 = Some \<lparr>qname = ''q'', at = Wait 0\<rparr> \<and> 0 \<in> closed s \<and>
         cache s ''q'' = None"
    by (simp add: init_def getCache_def goto_def)
  then obtain s where r: "run [Request 0 ''q'', Request 1 ''q'', Step 0, Step 1, Step 0, Step 1,
               Reply 0 (Inl (Error ''timeout'')), Step 0] (init 0) = Some s"
    and p: "\<not> panicked s" and c: "calls s 1 = Some \<lparr>qname = ''q'', at = Wait 0\<rparr>"
    and cl: "0 \<in> closed s" and ca: "cache s ''q'' = None"
    by blast
  define c0 where "c0 = \<lparr>qname = ''q'', at = Wait 0\<rparr>"
  have c': "calls s 1 = Some c0" and a: "at c0 = Wait 0" and q: "cache s (qname c0) = None"
    using c ca by (simp_all add: c0_def)
  have hyp: "\<not> panicked s \<and> calls s 1 = Some c0 \<and> at c0 = Wait 0 \<and> 0 \<in> closed s"
    using p c' a cl by (intro conjI)
  from follower_rereads_cache [of s 1 c0 0, THEN conjunct2, THEN conjunct1, THEN mp, OF hyp]
  obtain s' where s': "run [Step 1, Step 1] s = Some s'"
    and res: "result s' 1 =
              Some (case cache s (qname c0) of
                      None \<Rightarrow> Inl (Error ''upstream generation failed'')
                    | Some e \<Rightarrow>
                        if now s < expiresAt e then Inr (response e)
                        else Inl (Error ''upstream generation failed''))"
    by blast
  from res have res': "result s' 1 = Some (Inl (Error ''upstream generation failed''))"
    unfolding q by simp
  from r p c' a cl q s' res' show ?thesis by blast
qed

subsection \<open>After a failed generation\<close>

text \<open>
  Claim C1 says that after a call whose generation failed nothing is cached and the next
  call for the same query generates afresh. The first half holds; the second does not.
  On the failure path the code closes the channel but leaves the entry of
  \<^verbatim>\<open>inFlightRequests\<close> in place, so the next call finds it, receives from the closed
  channel at once, misses the cache and returns \<^verbatim>\<open>upstream generation failed\<close> without
  calling \<^verbatim>\<open>getLLMResponse\<close>: the log holds the first call only.
\<close>

theorem failed_request_poisons_query:
  "\<exists>s. run [Request 0 q, Step 0, Step 0, Reply 0 (Inl err), Step 0,
            Request 1 q, Step 1, Step 1, Step 1, Step 1] (init t0) = Some s \<and>
       result s 0 = Some (Inl err) \<and>
       result s 1 = Some (Inl (Error ''upstream generation failed'')) \<and>
       llmCalls s = [q] \<and> cache s q = None"
  by (simp add: init_def getCache_def goto_def result_def)

text \<open>
  Claim C2 says that the entry of \<^verbatim>\<open>inFlightRequests\<close> is removed once the generation
  has completed, on success and on failure. After a failed generation the entry is still
  there, bound to the closed channel; after a successful one it is gone.
\<close>

theorem slot_kept_after_failure:
  "(\<exists>s. run [Request 0 q, Step 0, Step 0, Reply 0 (Inl err), Step 0] (init t0) = Some s \<and>
        result s 0 = Some (Inl err) \<and> inFlightRequests s q = Some 0 \<and> 0 \<in> closed s) \<and>
   (\<exists>s. run [Request 0 q, Step 0, Step 0, Reply 0 (Inr resp), Step 0, Step 0, Step 0] (init t0) = Some s \<and>
        result s 0 = Some (Inr resp) \<and> inFlightRequests s q = None \<and> 0 \<in> closed s)"
  by (simp add: init_def getCache_def setCache_def goto_def result_def)

subsection \<open>Two calls, two generations\<close>

text \<open>
  Claim C3 says that concurrent calls for one query, issued while the cache has no fresh
  entry, lead to exactly one generation. Two calls both miss the cache; the first
  registers, generates, writes the cache and removes its entry; only then does the second
  enter the critical section, where the cache is not read again: it finds no entry,
  registers a new channel and generates a second time. (Lemma
  \<open>one_generation_per_query\<close> is what does hold: the two generations never overlap.)
\<close>

theorem late_acquire_generates_again:
  "\<exists>s. run [Request 0 q, Request 1 q, Step 0, Step 1, Step 0, Reply 0 (Inr r0),
            Step 0, Step 0, Step 1, Step 0, Reply 1 (Inr r1), Step 1, Step 1, Step 1]
           (init t0) = Some s \<and>
       result s 0 = Some (Inr r0) \<and> result s 1 = Some (Inr r1) \<and> llmCalls s = [q, q]"
  by (simp add: init_def getCache_def setCache_def goto_def result_def)

text \<open>
  Claim C8 says that after a successful call for a query every later call within the
  lifetime of the cached entry returns the response cached at first, without generating.
  The later call does hit the cache and does not generate, but the response need not be
  the first one. In the execution below call 0 generates \<^verbatim>\<open>first\<close>, caches it and returns
  it. Call 1, which had missed the cache before, then finds no entry in
  \<^verbatim>\<open>inFlightRequests\<close>, generates \<^verbatim>\<open>second\<close> and writes it over the cached entry. Call 2
  starts one nanosecond later, well before the first entry would have expired, and
  returns \<^verbatim>\<open>second\<close>.
\<close>

theorem late_commit_replaces_cached_response:
  "\<exists>s. run [Request 0 q, Request 1 q, Step 0, Step 1, Step 0, Reply 0 (Inr ''first''),
            Step 0, Step 0, Step 0, Step 1, Reply 1 (Inr ''second''), Step 1, Step 1, Step 1,
            Tick 1, Request 2 q, Step 2] (init t0) = Some s \<and>
       result s 0 = Some (Inr ''first'') \<and>
       result s 1 = Some (Inr ''second'') \<and>
       result s 2 = Some (Inr ''second'') \<and>
       result s 2 \<noteq> result s 0 \<and>
       now s < t0 + cacheDuration \<and>
       llmCalls s = [q, q]"
  by (simp add: init_def getCache_def setCache_def goto_def result_def cacheDuration_def)

end
